theory Spec2Isabelle
  imports Main
begin

section \<open>The bounded TTL cache of \<open>src/cache.ts\<close>\<close>

text \<open>
  \<open>createCache(options)\<close> returns six closures over one \<open>Map<string, CacheEntry<T>>\<close>
  and the two numbers \<open>ttl\<close> and \<open>maxSize\<close>. The embedding keeps the shape of the code:
  \<^item> \<open>CacheEntry\<close> and \<open>CacheOptions\<close> are records. The field \<open>value\<close> of the source is
    called \<open>val\<close> here, since \<open>value\<close> is a command name of Isabelle.
  \<^item> Numbers (\<open>ttl\<close>, \<open>maxSize\<close>, the result of \<open>Date.now()\<close>, \<open>expiresAt\<close>) are
    \<open>int\<close>: the interface documents \<open>ttl\<close> in milliseconds and \<open>Date.now()\<close> is an
    integer number of milliseconds. Fractional numbers and \<open>NaN\<close> are not modelled.
  \<^item> The JavaScript \<open>Map\<close> is an association list in insertion order, oldest entry
    first. Its operations follow ECMA-262: \<open>Map.prototype.set\<close> on a key that is
    present replaces the value of that record where it stands, and appends a record
    only for a key that is absent; \<open>Map.prototype.delete\<close> removes the record of the
    key and says whether there was one; iteration visits the records in insertion
    order.
  \<^item> Each closure body is a function from the captured state (\<open>'a Cache\<close>) to its
    result and the state afterwards. Every call of \<open>Date.now()\<close> is a parameter
    of the function, in the order in which the body reads the clock.
  \<^item> \<open>T | undefined\<close> is \<open>'a option\<close>, \<open>undefined\<close> being \<open>None\<close>.
  \<^item> \<open>has\<close> calls \<open>createCache\<close> again, so it lives on a heap of cache instances.
\<close>

subsection \<open>Data\<close>

record 'a CacheEntry =
  val :: 'a
  expiresAt :: int

record CacheOptions =
  ttl :: int
  maxSize :: int

type_synonym 'a Store = "(string \<times> 'a CacheEntry) list"

record 'a Cache =
  options :: CacheOptions
  store :: "'a Store"

subsection \<open>The operations of \<open>Map\<close> that the cache uses\<close>

text \<open>\<open>store.get(key)\<close>: the value of the record of \<open>key\<close>, or \<open>undefined\<close>.\<close>

fun map_get :: "('k \<times> 'v) list \<Rightarrow> 'k \<Rightarrow> 'v option" where
  "map_get [] key = None"
| "map_get ((k, v) # rest) key = (if k = key then Some v else map_get rest key)"

text \<open>\<open>store.set(key, entry)\<close>: replace in place, or append.\<close>

fun map_set :: "'k \<Rightarrow> 'v \<Rightarrow> ('k \<times> 'v) list \<Rightarrow> ('k \<times> 'v) list" where
  "map_set key v [] = [(key, v)]"
| "map_set key v ((k, w) # rest) =
     (if k = key then (key, v) # rest else (k, w) # map_set key v rest)"

text \<open>\<open>store.delete(key)\<close>: the map afterwards; its boolean result is \<open>map_has\<close> before.\<close>

fun map_delete :: "'k \<Rightarrow> ('k \<times> 'v) list \<Rightarrow> ('k \<times> 'v) list" where
  "map_delete key [] = []"
| "map_delete key ((k, v) # rest) =
     (if k = key then map_delete key rest else (k, v) # map_delete key rest)"

definition map_has :: "('k \<times> 'v) list \<Rightarrow> 'k \<Rightarrow> bool" where
  "map_has m key = (map_get m key \<noteq> None)"

text \<open>\<open>store.keys().next().value\<close>: the oldest key, \<open>undefined\<close> for an empty map.\<close>

fun first_key :: "('k \<times> 'v) list \<Rightarrow> 'k option" where
  "first_key [] = None"
| "first_key ((k, v) # rest) = Some k"

text \<open>A \<open>Map\<close> holds each key once.\<close>

definition wf_store :: "('k \<times> 'v) list \<Rightarrow> bool" where
  "wf_store m = distinct (map fst m)"

subsection \<open>\<open>createCache\<close> and its closures\<close>

text \<open>
  The state that the closures of one call of \<open>createCache\<close> share (lines 21 and 22):
  the options and an empty store.
\<close>

definition createCache :: "CacheOptions \<Rightarrow> 'a Cache" where
  "createCache opts = \<lparr>options = opts, store = []\<rparr>"

text \<open>
  \<open>evictExpired\<close> (lines 24 to 31) reads the clock once and iterates over the entries, deleting from the
  store each one it finds expired. The iterator of a \<open>Map\<close> is live, and the only
  record deleted while it runs is the one just visited, so the records still to visit
  are those of the store at the start: the loop runs over that list and threads the
  store.
\<close>

fun evictExpired_loop :: "int \<Rightarrow> 'a Store \<Rightarrow> 'a Store \<Rightarrow> 'a Store" where
  "evictExpired_loop now [] st = st"
| "evictExpired_loop now ((key, entry) # rest) st =
     evictExpired_loop now rest
       (if expiresAt entry < now then map_delete key st else st)"

definition evictExpired :: "int \<Rightarrow> 'a Cache \<Rightarrow> 'a Cache" where
  "evictExpired now c = c\<lparr>store := evictExpired_loop now (store c) (store c)\<rparr>"

text \<open>
  \<open>evictOldest\<close> (lines 33 to 40): when the store holds \<open>maxSize\<close> entries or more,
  delete its first key, if it has one.
\<close>

definition evictOldest :: "'a Cache \<Rightarrow> 'a Cache" where
  "evictOldest c =
     (if int (length (store c)) \<ge> maxSize (options c) then
        (case first_key (store c) of
           Some firstKey \<Rightarrow> c\<lparr>store := map_delete firstKey (store c)\<rparr>
         | None \<Rightarrow> c)
      else c)"

text \<open>
  \<open>get\<close> (lines 43 to 54): \<open>now1\<close> is the clock read by the sweep, \<open>now2\<close> the one read by
  the check of the entry found.
\<close>

definition get :: "'a Cache \<Rightarrow> int \<Rightarrow> int \<Rightarrow> string \<Rightarrow> 'a option \<times> 'a Cache" where
  "get c now1 now2 key =
     (let c1 = evictExpired now1 c in
      case map_get (store c1) key of
        None \<Rightarrow> (None, c1)
      | Some entry \<Rightarrow>
          if expiresAt entry < now2
          then (None, c1\<lparr>store := map_delete key (store c1)\<rparr>)
          else (Some (val entry), c1))"

text \<open>
  \<open>set\<close> (lines 56 to 64): \<open>now1\<close> is the clock read by the sweep, \<open>now2\<close> the one added
  to \<open>ttl\<close>. The sweep and the eviction come first, the write of \<open>key\<close> last.
\<close>

definition set_c :: "'a Cache \<Rightarrow> int \<Rightarrow> int \<Rightarrow> string \<Rightarrow> 'a \<Rightarrow> 'a Cache" where
  "set_c c now1 now2 key v =
     (let c1 = evictExpired now1 c;
          c2 = evictOldest c1;
          entry = \<lparr>val = v, expiresAt = now2 + ttl (options c)\<rparr>
      in c2\<lparr>store := map_set key entry (store c2)\<rparr>)"

text \<open>\<open>delete\<close> (lines 71 to 73), \<open>clear\<close> (lines 75 to 77) and \<open>size\<close> (lines 79 to 82).\<close>

definition delete_c :: "'a Cache \<Rightarrow> string \<Rightarrow> bool \<times> 'a Cache" where
  "delete_c c key = (map_has (store c) key, c\<lparr>store := map_delete key (store c)\<rparr>)"

definition clear :: "'a Cache \<Rightarrow> 'a Cache" where
  "clear c = c\<lparr>store := []\<rparr>"

definition size_c :: "'a Cache \<Rightarrow> int \<Rightarrow> nat \<times> 'a Cache" where
  "size_c c now = (let c1 = evictExpired now c in (length (store c1), c1))"

subsection \<open>Instances on a heap\<close>

text \<open>
  A heap is the list of the cache instances created so far; an instance is named by
  its index \<open>this\<close>, which the functions below expect to be less than the length of
  the heap. \<open>createCache(options)\<close> allocates an instance with an empty store.
  \<open>has\<close> (lines 66 to 69) is the one closure that reaches beyond its own instance: it
  evaluates \<open>createCache(options).get(key)\<close>, that is, it allocates a new instance
  from the options it captured and calls \<open>get\<close> of that instance.
\<close>

type_synonym 'a heap = "'a Cache list"

definition new_instance :: "CacheOptions \<Rightarrow> 'a heap \<Rightarrow> nat \<times> 'a heap" where
  "new_instance opts h = (length h, h @ [createCache opts])"

definition has :: "nat \<Rightarrow> int \<Rightarrow> int \<Rightarrow> string \<Rightarrow> 'a heap \<Rightarrow> bool \<times> 'a heap" where
  "has this now1 now2 key h =
     (let (fresh, h1) = new_instance (options (h ! this)) h;
          (value, c') = get (h1 ! fresh) now1 now2 key
      in (value \<noteq> None, h1[fresh := c']))"

text \<open>A call of one of the six closures of the instance \<open>this\<close>, with the clock values it reads.\<close>

datatype 'a call =
    Get string int int
  | Set string 'a int int
  | Has string int int
  | Delete string
  | Clear
  | Size int

fun exec :: "nat \<Rightarrow> 'a heap \<Rightarrow> 'a call \<Rightarrow> 'a heap" where
  "exec this h (Get key now1 now2) = h[this := snd (get (h ! this) now1 now2 key)]"
| "exec this h (Set key v now1 now2) = h[this := set_c (h ! this) now1 now2 key v]"
| "exec this h (Has key now1 now2) = snd (has this now1 now2 key h)"
| "exec this h (Delete key) = h[this := snd (delete_c (h ! this) key)]"
| "exec this h Clear = h[this := clear (h ! this)]"
| "exec this h (Size now) = h[this := snd (size_c (h ! this) now)]"

definition run :: "nat \<Rightarrow> 'a heap \<Rightarrow> 'a call list \<Rightarrow> 'a heap" where
  "run this h calls = foldl (exec this) h calls"

text \<open>
  What a call does to the state captured by the instance it is called on. For \<open>has\<close>
  that is nothing; \<open>exec_this\<close> below proves that \<open>exec\<close> agrees.
\<close>

fun effect :: "'a Cache \<Rightarrow> 'a call \<Rightarrow> 'a Cache" where
  "effect c (Get key now1 now2) = snd (get c now1 now2 key)"
| "effect c (Set key v now1 now2) = set_c c now1 now2 key v"
| "effect c (Has key now1 now2) = c"
| "effect c (Delete key) = snd (delete_c c key)"
| "effect c Clear = clear c"
| "effect c (Size now) = snd (size_c c now)"

text \<open>Whether a call is \<open>set(key, ...)\<close>.\<close>

fun sets_key :: "string \<Rightarrow> 'a call \<Rightarrow> bool" where
  "sets_key key (Set k v now1 now2) = (k = key)"
| "sets_key key other = False"

text \<open>
  The state of an instance that calls can reach: each key once, and at most
  \<open>maxSize\<close> entries, or one entry when \<open>maxSize\<close> is below one.
\<close>

definition cache_inv :: "'a Cache \<Rightarrow> bool" where
  "cache_inv c = (wf_store (store c) \<and> int (length (store c)) \<le> max 1 (maxSize (options c)))"

section \<open>Facts about the map operations\<close>

lemma map_get_map_set: "map_get (map_set key v m) k = (if k = key then Some v else map_get m k)"
  by (induction m) auto

lemma map_get_map_delete: "map_get (map_delete key m) k = (if k = key then None else map_get m k)"
  by (induction m) auto

lemma map_delete_filter: "map_delete key m = filter (\<lambda>p. fst p \<noteq> key) m"
  by (induction m) auto

lemma map_get_None_iff: "map_get m k = None \<longleftrightarrow> k \<notin> fst ` set m"
  by (induction m) (auto split: if_splits)

lemma map_get_Some_mem: "map_get m k = Some v \<Longrightarrow> (k, v) \<in> set m"
  by (induction m) (auto split: if_splits)

lemma keys_map_set:
  "map fst (map_set key v m) = (if map_has m key then map fst m else map fst m @ [key])"
  unfolding map_has_def by (induction m) (auto split: if_splits)

lemma length_map_set:
  "length (map_set key v m) = (if map_has m key then length m else Suc (length m))"
  unfolding map_has_def by (induction m) (auto split: if_splits)

lemma map_delete_absent: "k \<notin> fst ` set m \<Longrightarrow> map_delete k m = m"
  by (induction m) auto

lemma length_map_delete: "length (map_delete k m) \<le> length m"
  by (simp add: map_delete_filter)

lemma map_get_filter_key:
  "map_get (filter (\<lambda>p. Q (fst p)) m) k = (if Q k then map_get m k else None)"
  by (induction m) (auto simp: map_get_None_iff)

lemma map_get_filter_wf:
  "wf_store m \<Longrightarrow> map_get (filter P m) k =
     (case map_get m k of None \<Rightarrow> None | Some e \<Rightarrow> if P (k, e) then Some e else None)"
proof (induction m)
  case Nil
  then show ?case by simp
next
  case (Cons a m)
  then have wf: "wf_store m" and notin: "fst a \<notin> fst ` set m"
    unfolding wf_store_def by auto
  obtain k' e' where a: "a = (k', e')" by (cases a)
  show ?case
  proof (cases "k' = k")
    case True
    with notin a have "map_get m k = None" by (simp add: map_get_None_iff)
    then have "map_get (filter P m) k = None"
      using Cons.IH [OF wf] by simp
    with True a show ?thesis by simp
  next
    case False
    with a Cons.IH [OF wf] show ?thesis by simp
  qed
qed

lemma map_has_tl:
  assumes "wf_store m"
  shows "map_has (tl m) k \<longleftrightarrow> map_has m k \<and> first_key m \<noteq> Some k"
proof (cases m)
  case Nil
  then show ?thesis by (simp add: map_has_def)
next
  case (Cons p rest)
  obtain k0 e0 where p: "p = (k0, e0)" by (cases p)
  from assms Cons p have "map_get rest k0 = None"
    by (simp add: wf_store_def map_get_None_iff)
  with Cons p show ?thesis
    by (auto simp: map_has_def)
qed

lemma wf_store_map_set: "wf_store m \<Longrightarrow> wf_store (map_set key v m)"
  unfolding wf_store_def by (simp add: keys_map_set map_has_def map_get_None_iff)

lemma wf_store_filter: "wf_store m \<Longrightarrow> wf_store (filter P m)"
  unfolding wf_store_def by (simp add: distinct_map_filter)

lemma wf_store_map_delete: "wf_store m \<Longrightarrow> wf_store (map_delete key m)"
  by (simp add: map_delete_filter wf_store_filter)

section \<open>Facts about the expiry sweep\<close>

lemma evictExpired_loop_filter:
  "evictExpired_loop now xs st =
     filter (\<lambda>p. fst p \<notin> fst ` {x \<in> set xs. expiresAt (snd x) < now}) st"
proof (induction xs arbitrary: st)
  case Nil
  then show ?case by simp
next
  case (Cons x xs)
  obtain key entry where x: "x = (key, entry)" by (cases x)
  show ?case
  proof (cases "expiresAt entry < now")
    case True
    have "fst ` {y \<in> set (x # xs). expiresAt (snd y) < now}
          = insert key (fst ` {y \<in> set xs. expiresAt (snd y) < now})"
      using True x by force
    then show ?thesis
      using True x Cons.IH [of "map_delete key st"]
      by (simp add: map_delete_filter)
  next
    case False
    have "{y \<in> set (x # xs). expiresAt (snd y) < now} = {y \<in> set xs. expiresAt (snd y) < now}"
      using False x by auto
    then show ?thesis
      using False x Cons.IH [of st] by simp
  qed
qed

lemma evictExpired_loop_wf:
  assumes "wf_store st"
  shows "evictExpired_loop now st st = filter (\<lambda>p. \<not> expiresAt (snd p) < now) st"
proof -
  have "(fst p \<notin> fst ` {x \<in> set st. expiresAt (snd x) < now}) = (\<not> expiresAt (snd p) < now)"
    if "p \<in> set st" for p
  proof
    assume "fst p \<notin> fst ` {x \<in> set st. expiresAt (snd x) < now}"
    then show "\<not> expiresAt (snd p) < now" using that by auto
  next
    assume live: "\<not> expiresAt (snd p) < now"
    show "fst p \<notin> fst ` {x \<in> set st. expiresAt (snd x) < now}"
    proof
      assume "fst p \<in> fst ` {x \<in> set st. expiresAt (snd x) < now}"
      then obtain x where x: "x \<in> set st" "expiresAt (snd x) < now" "fst x = fst p" by auto
      from assms have "inj_on fst (set st)"
        unfolding wf_store_def by (simp add: distinct_map)
      with x that have "x = p" by (auto dest: inj_onD)
      with x live show False by simp
    qed
  qed
  then have "filter (\<lambda>p. fst p \<notin> fst ` {x \<in> set st. expiresAt (snd x) < now}) st
             = filter (\<lambda>p. \<not> expiresAt (snd p) < now) st"
    by (intro filter_cong refl)
  then show ?thesis
    by (simp only: evictExpired_loop_filter)
qed

lemma length_evictExpired_loop: "length (evictExpired_loop now xs st) \<le> length st"
  by (simp add: evictExpired_loop_filter)

lemma wf_evictExpired_loop: "wf_store st \<Longrightarrow> wf_store (evictExpired_loop now xs st)"
  by (simp add: evictExpired_loop_filter wf_store_filter)

lemma map_get_evictExpired_loop:
  "map_get (evictExpired_loop now xs st) k = None \<or>
   map_get (evictExpired_loop now xs st) k = map_get st k"
  unfolding evictExpired_loop_filter
  using map_get_filter_key [of "\<lambda>k. k \<notin> fst ` {x \<in> set xs. expiresAt (snd x) < now}" st k]
  by (simp split: if_splits)

lemma map_get_sweep:
  "wf_store st \<Longrightarrow> map_get (evictExpired_loop now st st) k =
     (case map_get st k of None \<Rightarrow> None
      | Some e \<Rightarrow> if expiresAt e < now then None else Some e)"
  by (simp add: evictExpired_loop_wf map_get_filter_wf split: option.splits)

section \<open>Facts about the closures\<close>

lemma options_evictExpired [simp]: "options (evictExpired now c) = options c"
  by (simp add: evictExpired_def)

lemma options_evictOldest [simp]: "options (evictOldest c) = options c"
  by (simp add: evictOldest_def split: option.splits)

lemma options_set_c [simp]: "options (set_c c now1 now2 key v) = options c"
  by (simp add: set_c_def Let_def)

lemma options_get [simp]: "options (snd (get c now1 now2 key)) = options c"
  by (simp add: get_def Let_def split: option.splits)

lemma options_delete_c [simp]: "options (snd (delete_c c key)) = options c"
  by (simp add: delete_c_def)

lemma options_clear [simp]: "options (clear c) = options c"
  by (simp add: clear_def)

lemma options_size_c [simp]: "options (snd (size_c c now)) = options c"
  by (simp add: size_c_def Let_def)

lemma wf_evictExpired: "wf_store (store c) \<Longrightarrow> wf_store (store (evictExpired now c))"
  by (simp add: evictExpired_def wf_evictExpired_loop)

lemma wf_evictOldest: "wf_store (store c) \<Longrightarrow> wf_store (store (evictOldest c))"
  by (simp add: evictOldest_def wf_store_map_delete split: option.splits)

lemma wf_set_c: "wf_store (store c) \<Longrightarrow> wf_store (store (set_c c now1 now2 key v))"
  by (simp add: set_c_def Let_def wf_store_map_set wf_evictOldest wf_evictExpired)

lemma wf_get: "wf_store (store c) \<Longrightarrow> wf_store (store (snd (get c now1 now2 key)))"
  by (simp add: get_def Let_def wf_store_map_delete wf_evictExpired split: option.splits)

lemma wf_delete_c: "wf_store (store c) \<Longrightarrow> wf_store (store (snd (delete_c c key)))"
  by (simp add: delete_c_def wf_store_map_delete)

lemma wf_clear: "wf_store (store (clear c))"
  by (simp add: clear_def wf_store_def)

lemma wf_size_c: "wf_store (store c) \<Longrightarrow> wf_store (store (snd (size_c c now)))"
  by (simp add: size_c_def Let_def wf_evictExpired)

lemma length_evictExpired: "length (store (evictExpired now c)) \<le> length (store c)"
  by (simp add: evictExpired_def length_evictExpired_loop)

lemma evictOldest_store:
  assumes "wf_store (store c)"
  shows "store (evictOldest c) =
     (if int (length (store c)) \<ge> maxSize (options c) then tl (store c) else store c)"
proof (cases "store c")
  case Nil
  then show ?thesis by (simp add: evictOldest_def)
next
  case (Cons p rest)
  obtain k e where p: "p = (k, e)" by (cases p)
  from assms Cons p have "k \<notin> fst ` set rest"
    by (simp add: wf_store_def)
  then have "map_delete k rest = rest"
    by (rule map_delete_absent)
  with Cons p show ?thesis
    by (simp add: evictOldest_def)
qed

lemma map_has_evictOldest:
  assumes "wf_store (store c)"
  shows "map_has (store (evictOldest c)) k \<longleftrightarrow>
     map_has (store c) k \<and>
     \<not> (maxSize (options c) \<le> int (length (store c)) \<and> first_key (store c) = Some k)"
  using assms by (auto simp: evictOldest_store map_has_tl)

lemma map_has_evictExpired:
  assumes "wf_store (store c)"
  shows "map_has (store (evictExpired now c)) k \<longleftrightarrow>
     (\<exists>e. map_get (store c) k = Some e \<and> \<not> expiresAt e < now)"
  using assms by (auto simp: map_has_def evictExpired_def map_get_sweep split: option.splits)

lemma get_result:
  assumes "wf_store (store c)"
  shows "fst (get c now1 now2 key) =
     (case map_get (store c) key of
        None \<Rightarrow> None
      | Some e \<Rightarrow> if expiresAt e < now1 \<or> expiresAt e < now2 then None else Some (val e))"
  using assms
  by (simp add: get_def Let_def evictExpired_def map_get_sweep split: option.splits)

lemma get_createCache: "get (createCache opts) now1 now2 key = (None, createCache opts)"
  by (simp add: get_def createCache_def evictExpired_def)

lemma map_get_set_c:
  "map_get (store (set_c c now1 now2 key v)) key =
     Some \<lparr>val = v, expiresAt = now2 + ttl (options c)\<rparr>"
  by (simp add: set_c_def Let_def map_get_map_set)

lemma length_set_c:
  assumes "cache_inv c"
  shows "int (length (store (set_c c now1 now2 key v))) \<le> max 1 (maxSize (options c))"
proof -
  let ?c1 = "evictExpired now1 c"
  have wf1: "wf_store (store ?c1)"
    using assms by (simp add: cache_inv_def wf_evictExpired)
  have len1: "int (length (store ?c1)) \<le> max 1 (maxSize (options c))"
    using assms length_evictExpired [of now1 c] by (simp add: cache_inv_def)
  have step: "int (length (store (set_c c now1 now2 key v)))
      \<le> int (length (store (evictOldest ?c1))) + 1"
    by (simp add: set_c_def Let_def length_map_set)
  show ?thesis
  proof (cases "int (length (store ?c1)) \<ge> maxSize (options c)")
    case True
    then have "store (evictOldest ?c1) = tl (store ?c1)"
      using evictOldest_store [OF wf1] by simp
    then have "int (length (store (evictOldest ?c1))) + 1 \<le> max 1 (int (length (store ?c1)))"
      by (cases "store ?c1") simp_all
    with step len1 show ?thesis by simp
  next
    case False
    then have "store (evictOldest ?c1) = store ?c1"
      using evictOldest_store [OF wf1] by simp
    with step False show ?thesis by simp
  qed
qed

lemma length_get: "length (store (snd (get c now1 now2 key))) \<le> length (store c)"
proof -
  have "length (map_delete key (store (evictExpired now1 c))) \<le> length (store c)"
    using length_map_delete [of key "store (evictExpired now1 c)"] length_evictExpired [of now1 c]
    by simp
  then show ?thesis
    using length_evictExpired [of now1 c]
    by (simp add: get_def Let_def split: option.splits)
qed

section \<open>Facts about the heap and sequences of calls\<close>

lemma has_unfold: "has this now1 now2 key h = (False, h @ [createCache (options (h ! this))])"
  by (simp add: has_def new_instance_def get_createCache)

lemma exec_this:
  assumes "this < length h"
  shows "this < length (exec this h call) \<and> exec this h call ! this = effect (h ! this) call"
  using assms by (cases call) (simp_all add: has_unfold nth_append)

lemma run_this:
  assumes "this < length h"
  shows "this < length (run this h calls) \<and> run this h calls ! this = foldl effect (h ! this) calls"
  using assms
proof (induction calls arbitrary: h)
  case Nil
  then show ?case by (simp add: run_def)
next
  case (Cons call calls)
  from exec_this [OF Cons.prems, of call]
  have len: "this < length (exec this h call)"
    and eq: "exec this h call ! this = effect (h ! this) call"
    by simp_all
  from Cons.IH [OF len] show ?case
    by (simp add: run_def eq)
qed

lemma run_new_instance:
  assumes "new_instance opts h = (this, h0)"
  shows "run this h0 calls ! this = foldl effect (createCache opts) calls"
proof -
  from assms have "this < length h0" and "h0 ! this = createCache opts"
    by (auto simp: new_instance_def)
  with run_this [of this h0 calls] show ?thesis by simp
qed

lemma options_effect [simp]: "options (effect c call) = options c"
  by (cases call) simp_all

lemma options_foldl_effect [simp]: "options (foldl effect c calls) = options c"
  by (induction calls arbitrary: c) simp_all

lemma cache_inv_effect:
  assumes "cache_inv c"
  shows "cache_inv (effect c call)"
proof (cases call)
  case (Get key now1 now2)
  with assms length_get [of c now1 now2 key] show ?thesis
    by (simp add: cache_inv_def wf_get)
next
  case (Set key v now1 now2)
  with assms length_set_c [OF assms, of now1 now2 key v] show ?thesis
    by (simp add: cache_inv_def wf_set_c)
next
  case (Has key now1 now2)
  with assms show ?thesis by simp
next
  case (Delete key)
  with assms length_map_delete [of key "store c"] show ?thesis
    by (simp add: cache_inv_def wf_delete_c) (simp add: delete_c_def)
next
  case Clear
  with assms show ?thesis
    by (simp add: cache_inv_def wf_clear) (simp add: clear_def)
next
  case (Size now)
  with assms length_evictExpired [of now c] show ?thesis
    by (simp add: cache_inv_def wf_size_c) (simp add: size_c_def Let_def)
qed

lemma cache_inv_foldl_effect: "cache_inv c \<Longrightarrow> cache_inv (foldl effect c calls)"
  by (induction calls arbitrary: c) (simp_all add: cache_inv_effect)

lemma cache_inv_createCache: "cache_inv (createCache opts)"
  by (simp add: cache_inv_def createCache_def wf_store_def)

section \<open>The entry of a key between two writes of it\<close>

lemma map_get_evictExpired:
  "map_get (store (evictExpired now c)) k = None \<or>
   map_get (store (evictExpired now c)) k = map_get (store c) k"
  using map_get_evictExpired_loop [of now "store c" "store c" k]
  by (simp add: evictExpired_def)

lemma map_get_evictOldest:
  "map_get (store (evictOldest c)) k = None \<or>
   map_get (store (evictOldest c)) k = map_get (store c) k"
  by (simp add: evictOldest_def map_get_map_delete split: option.splits)

lemma map_get_get:
  "map_get (store (snd (get c now1 now2 key))) k = None \<or>
   map_get (store (snd (get c now1 now2 key))) k = map_get (store c) k"
  using map_get_evictExpired [of now1 c k]
  by (auto simp: get_def Let_def map_get_map_delete split: option.splits)

lemma map_get_set_c_other:
  assumes "key \<noteq> k"
  shows "map_get (store (set_c c now1 now2 key v)) k = None \<or>
         map_get (store (set_c c now1 now2 key v)) k = map_get (store c) k"
proof -
  have "map_get (store (set_c c now1 now2 key v)) k
        = map_get (store (evictOldest (evictExpired now1 c))) k"
    using assms by (simp add: set_c_def Let_def map_get_map_set)
  then show ?thesis
    using map_get_evictOldest [of "evictExpired now1 c" k] map_get_evictExpired [of now1 c k]
    by auto
qed

lemma map_get_effect:
  assumes "\<not> sets_key k call"
  shows "map_get (store (effect c call)) k = None \<or>
         map_get (store (effect c call)) k = map_get (store c) k"
proof (cases call)
  case (Get key now1 now2)
  then show ?thesis using map_get_get [of c now1 now2 key k] by simp
next
  case (Set key v now1 now2)
  with assms have "key \<noteq> k" by simp
  from map_get_set_c_other [OF this, of c now1 now2 v] Set show ?thesis by simp
next
  case (Has key now1 now2)
  then show ?thesis by simp
next
  case (Delete key)
  then show ?thesis by (simp add: delete_c_def map_get_map_delete)
next
  case Clear
  then show ?thesis by (simp add: clear_def)
next
  case (Size now)
  then show ?thesis using map_get_evictExpired [of now c k] by (simp add: size_c_def Let_def)
qed

lemma map_get_foldl_effect:
  assumes "\<forall>call \<in> set calls. \<not> sets_key k call"
  shows "map_get (store (foldl effect c calls)) k = None \<or>
         map_get (store (foldl effect c calls)) k = map_get (store c) k"
  using assms
proof (induction calls arbitrary: c)
  case Nil
  then show ?case by simp
next
  case (Cons call calls)
  then have "\<not> sets_key k call" and rest: "\<forall>call \<in> set calls. \<not> sets_key k call"
    by simp_all
  from map_get_effect [OF this(1), of c] Cons.IH [OF rest, of "effect c call"]
  show ?case by auto
qed

lemma get_expired:
  assumes "map_get (store c) key = None \<or> map_get (store c) key = Some e"
    and "expiresAt e < now1 \<or> expiresAt e < now2"
  shows "fst (get c now1 now2 key) = None"
proof (cases "map_get (store c) key = Some e \<and> expiresAt e < now1")
  case True
  then have "(key, e) \<in> set (store c)"
    by (simp add: map_get_Some_mem)
  with True have "key \<in> fst ` {x \<in> set (store c). expiresAt (snd x) < now1}"
    by force
  then have "map_get (store (evictExpired now1 c)) key = None"
    using map_get_filter_key
      [of "\<lambda>k. k \<notin> fst ` {x \<in> set (store c). expiresAt (snd x) < now1}" "store c" key]
    by (simp add: evictExpired_def evictExpired_loop_filter)
  then show ?thesis
    by (simp add: get_def Let_def)
next
  case False
  with assms have "map_get (store c) key = None \<or> expiresAt e < now2"
    by auto
  with assms(1) map_get_evictExpired [of now1 c key]
  have "map_get (store (evictExpired now1 c)) key = None \<or>
        (map_get (store (evictExpired now1 c)) key = Some e \<and> expiresAt e < now2)"
    by auto
  then show ?thesis
    by (auto simp: get_def Let_def)
qed

section \<open>The claims\<close>

text \<open>
  C1. Reading a key right after writing it gives the value written: for every cache,
  key and value, \<open>get(key)\<close> after \<open>set(key, value)\<close> returns \<open>value\<close> when both clock
  values read by \<open>get\<close> are at most the clock value of the \<open>set\<close> plus \<open>ttl\<close>, that is,
  before the \<open>ttl\<close> has elapsed. The eviction inside \<open>set\<close> runs before the insertion,
  so it never removes the key being set, and the statement needs no assumption on it;
  it needs none on the sign of \<open>ttl\<close> either.
\<close>

theorem get_after_set:
  assumes "wf_store (store c)"
    and "now3 \<le> now2 + ttl (options c)"
    and "now4 \<le> now2 + ttl (options c)"
  shows "fst (get (set_c c now1 now2 key v) now3 now4 key) = Some v"
proof -
  have "wf_store (store (set_c c now1 now2 key v))"
    using assms(1) by (rule wf_set_c)
  then show ?thesis
    using assms(2,3) by (simp add: get_result map_get_set_c)
qed

theorem get_after_set_witness:
  "fst (get (set_c \<lparr>options = \<lparr>ttl = 5, maxSize = 1\<rparr>,
                     store = [(''x'', \<lparr>val = (7::int), expiresAt = 9\<rparr>)]\<rparr> 1 2 ''k'' 8)
            3 7 ''k'') = Some 8"
  by (rule get_after_set) (simp_all add: wf_store_def)

text \<open>
  C2, as the code has it. Let \<open>set(key, v)\<close> read the clock value \<open>s2\<close> for
  \<open>expiresAt\<close>, and let any calls follow that are not a \<open>set\<close> of \<open>key\<close>. Then a
  \<open>get(key)\<close> that reads a clock value strictly greater than \<open>s2 + ttl\<close> returns
  absent. With \<open>ttl = 0\<close> that is every read at an instant strictly later than the
  insertion.
\<close>

theorem get_after_ttl:
  assumes "this < length h"
    and "\<forall>call \<in> set calls. \<not> sets_key key call"
    and "s2 + ttl (options (h ! this)) < g1 \<or> s2 + ttl (options (h ! this)) < g2"
  shows "fst (get (run this h (Set key v s1 s2 # calls) ! this) g1 g2 key) = None"
proof -
  let ?e = "\<lparr>val = v, expiresAt = s2 + ttl (options (h ! this))\<rparr>"
  let ?c = "set_c (h ! this) s1 s2 key v"
  have run: "run this h (Set key v s1 s2 # calls) ! this = foldl effect ?c calls"
    using run_this [OF assms(1), of "Set key v s1 s2 # calls"] by simp
  have "map_get (store ?c) key = Some ?e"
    by (rule map_get_set_c)
  with map_get_foldl_effect [OF assms(2), of ?c]
  have "map_get (store (foldl effect ?c calls)) key = None \<or>
        map_get (store (foldl effect ?c calls)) key = Some ?e"
    by auto
  moreover have "expiresAt ?e < g1 \<or> expiresAt ?e < g2"
    using assms(3) by simp
  ultimately have "fst (get (foldl effect ?c calls) g1 g2 key) = None"
    by (rule get_expired)
  then show ?thesis
    by (simp only: run)
qed

theorem get_after_ttl_witness:
  "fst (get (run 0 [createCache \<lparr>ttl = 0, maxSize = 2\<rparr>]
               (Set ''a'' (1::int) 5 5 # [Set ''b'' 2 5 5, Size 5]) ! 0) 6 6 ''a'') = None"
proof -
  have h1: "(0::nat) < length [createCache \<lparr>ttl = 0, maxSize = 2\<rparr> :: int Cache]"
    by simp
  have h2: "\<forall>call \<in> set [Set ''b'' (2::int) 5 5, Size 5]. \<not> sets_key ''a'' call"
    by simp
  have h3: "5 + ttl (options ([createCache \<lparr>ttl = 0, maxSize = 2\<rparr> :: int Cache] ! 0)) < 6
          \<or> 5 + ttl (options ([createCache \<lparr>ttl = 0, maxSize = 2\<rparr> :: int Cache] ! 0)) < 6"
    by (simp add: createCache_def)
  show ?thesis
    using get_after_ttl [OF h1 h2 h3, of 1 5] by simp
qed

text \<open>
  C2, as the claim has it, fails at the boundary: with \<open>ttl = 10\<close>, an entry set at
  time 0 and read at time 10, that is at set-time plus \<open>ttl\<close>, is returned.
\<close>

theorem get_at_ttl_boundary:
  "(10::int) \<ge> 0 + ttl \<lparr>ttl = 10, maxSize = 2\<rparr>
   \<and> fst (get (set_c (createCache \<lparr>ttl = 10, maxSize = 2\<rparr>) 0 0 ''a'' (1::int))
           10 10 ''a'') = Some 1"
  by (simp add: createCache_def set_c_def get_def evictExpired_def evictOldest_def)

text \<open>
  C3. For a cache created with \<open>maxSize > 0\<close>, after every sequence of calls of its
  closures, whatever the clock does, the store holds at most \<open>maxSize\<close> entries, and
  \<open>size()\<close> returns at most \<open>maxSize\<close>. This holds after every call, so in particular
  when the last call is a \<open>set\<close>.
\<close>

theorem size_bounded:
  assumes "0 < maxSize opts"
    and "new_instance opts h = (this, h0)"
  shows "int (length (store (run this h0 calls ! this))) \<le> maxSize opts
       \<and> int (fst (size_c (run this h0 calls ! this) now)) \<le> maxSize opts"
proof -
  let ?c = "foldl effect (createCache opts) calls"
  have c: "run this h0 calls ! this = ?c"
    using assms(2) by (rule run_new_instance)
  have "cache_inv ?c"
    by (rule cache_inv_foldl_effect) (rule cache_inv_createCache)
  moreover have "options ?c = opts"
    by (simp add: createCache_def)
  ultimately have len: "int (length (store ?c)) \<le> maxSize opts"
    using assms(1) by (simp add: cache_inv_def)
  moreover have "int (fst (size_c ?c now)) \<le> int (length (store ?c))"
    using length_evictExpired [of now ?c] by (simp add: size_c_def Let_def)
  ultimately show ?thesis
    unfolding c by simp
qed

theorem size_bounded_witness:
  "int (length (store (run 0 [createCache \<lparr>ttl = 10, maxSize = 1\<rparr>]
      [Set ''a'' (1::int) 0 0, Set ''b'' 2 1 1] ! 0))) \<le> 1"
proof -
  have h1: "0 < maxSize \<lparr>ttl = 10, maxSize = 1\<rparr>"
    by simp
  have h2: "new_instance \<lparr>ttl = 10, maxSize = 1\<rparr> ([] :: int heap)
            = (0, [createCache \<lparr>ttl = 10, maxSize = 1\<rparr>])"
    by (simp add: new_instance_def)
  show ?thesis
    using size_bounded [OF h1 h2, of "[Set ''a'' 1 0 0, Set ''b'' 2 1 1]" 2] by simp
qed

text \<open>
  C4. With \<open>maxSize = 2\<close> and a \<open>ttl\<close> under which nothing expires (every clock value
  read after a \<open>set\<close> is at most the clock value of each \<open>set\<close> plus \<open>ttl\<close>), the calls
  \<open>set("a",1)\<close>, \<open>set("b",2)\<close>, \<open>set("c",3)\<close> on a new cache are followed by
  \<open>get("a")\<close> absent, \<open>get("b") = 2\<close> and \<open>get("c") = 3\<close>: the third \<open>set\<close> finds the store
  at capacity and evicts the key inserted first.
\<close>

theorem eviction_order:
  fixes opts :: CacheOptions
  assumes "maxSize opts = 2"
    and "\<forall>s \<in> set [a2, b2, c2]. \<forall>n \<in> set [b1, c1, g1, g2, g3, g4, g5, g6]. n \<le> s + ttl opts"
    and "c3 = set_c (set_c (set_c (createCache opts) a1 a2 ''a'' (1::int))
                                b1 b2 ''b'' 2) c1 c2 ''c'' 3"
  shows "fst (get c3 g1 g2 ''a'') = None
       \<and> fst (get (snd (get c3 g1 g2 ''a'')) g3 g4 ''b'') = Some 2
       \<and> fst (get (snd (get (snd (get c3 g1 g2 ''a'')) g3 g4 ''b'')) g5 g6 ''c'') = Some 3"
proof -
  let ?ea = "\<lparr>val = 1::int, expiresAt = a2 + ttl opts\<rparr>"
  let ?eb = "\<lparr>val = 2::int, expiresAt = b2 + ttl opts\<rparr>"
  let ?ec = "\<lparr>val = 3::int, expiresAt = c2 + ttl opts\<rparr>"
  have s1: "set_c (createCache opts) a1 a2 ''a'' 1 = \<lparr>options = opts, store = [(''a'', ?ea)]\<rparr>"
    using assms(1) by (simp add: set_c_def createCache_def evictExpired_def evictOldest_def)
  have s2: "set_c \<lparr>options = opts, store = [(''a'', ?ea)]\<rparr> b1 b2 ''b'' 2
             = \<lparr>options = opts, store = [(''a'', ?ea), (''b'', ?eb)]\<rparr>"
    using assms(1,2) by (simp add: set_c_def evictExpired_def evictOldest_def)
  have s3: "set_c \<lparr>options = opts, store = [(''a'', ?ea), (''b'', ?eb)]\<rparr> c1 c2 ''c'' 3
             = \<lparr>options = opts, store = [(''b'', ?eb), (''c'', ?ec)]\<rparr>"
    using assms(1,2) by (simp add: set_c_def evictExpired_def evictOldest_def)
  have c3: "c3 = \<lparr>options = opts, store = [(''b'', ?eb), (''c'', ?ec)]\<rparr>"
    unfolding assms(3) by (simp only: s1 s2 s3)
  have ga: "get c3 g1 g2 ''a'' = (None, c3)"
    using assms(2) unfolding c3 by (simp add: get_def evictExpired_def)
  have gb: "get c3 g3 g4 ''b'' = (Some 2, c3)"
    using assms(2) unfolding c3 by (simp add: get_def evictExpired_def)
  have gc: "get c3 g5 g6 ''c'' = (Some 3, c3)"
    using assms(2) unfolding c3 by (simp add: get_def evictExpired_def)
  show ?thesis
    by (simp add: ga gb gc)
qed

theorem eviction_order_witness:
  "fst (get (set_c (set_c (set_c (createCache \<lparr>ttl = 1000, maxSize = 2\<rparr>) 0 0 ''a'' (1::int))
                                1 1 ''b'' 2) 2 2 ''c'' 3) 3 3 ''a'') = None"
proof -
  have h1: "maxSize \<lparr>ttl = 1000, maxSize = 2\<rparr> = 2"
    by simp
  have h2: "\<forall>s \<in> set [0, 1, 2::int]. \<forall>n \<in> set [1, 2, 3, 3, 4, 4, 5, 5].
              n \<le> s + ttl \<lparr>ttl = 1000, maxSize = 2\<rparr>"
    by simp
  show ?thesis
    using eviction_order [OF h1 h2 refl, where ?a1.0 = 0] by simp
qed

text \<open>
  C5. The claim is that \<open>has(key)\<close> is true exactly when \<open>get(key)\<close> of the same
  instance returns a value. The code asks a new, empty instance instead: on a cache
  created with \<open>ttl = 1000\<close> and \<open>maxSize = 2\<close>, after \<open>set("a", 1)\<close> at time 0, at
  time 1 \<open>get("a")\<close> returns 1 and \<open>has("a")\<close> returns false.
\<close>

theorem has_misses_present_key:
  "fst (get (exec 0 (snd (new_instance \<lparr>ttl = 1000, maxSize = 2\<rparr> []))
               (Set ''a'' (1::int) 0 0) ! 0) 1 1 ''a'') = Some 1
   \<and> fst (has 0 1 1 ''a'' (exec 0 (snd (new_instance \<lparr>ttl = 1000, maxSize = 2\<rparr> []))
               (Set ''a'' (1::int) 0 0))) = False"
  by (simp add: new_instance_def has_def createCache_def set_c_def get_def
      evictExpired_def evictOldest_def)

text \<open>
  C6, as the code has it. \<open>set(k, v)\<close> sweeps, evicts, and then calls \<open>store.set\<close>.
  If \<open>k\<close> is still in the store at that point, its entry is replaced where it stands
  and the order of the keys does not change: \<open>k\<close> keeps its place in the eviction
  order. Only if the sweep or the eviction of this very call removed \<open>k\<close> is it
  appended as the newest key. On a store that holds each key once, \<open>k\<close> is still
  there exactly when it had an entry that the sweep found not expired and it was
  not the oldest key of a store at capacity.
\<close>

theorem set_existing_key_position:
  assumes "wf_store (store c)"
  shows "map fst (store (set_c c now1 now2 k v)) =
     (if map_has (store (evictOldest (evictExpired now1 c))) k
      then map fst (store (evictOldest (evictExpired now1 c)))
      else map fst (store (evictOldest (evictExpired now1 c))) @ [k])
   \<and> (map_has (store (evictOldest (evictExpired now1 c))) k \<longleftrightarrow>
        (\<exists>e. map_get (store c) k = Some e \<and> \<not> expiresAt e < now1) \<and>
        \<not> (maxSize (options c) \<le> int (length (store (evictExpired now1 c))) \<and>
           first_key (store (evictExpired now1 c)) = Some k))"
proof
  show "map fst (store (set_c c now1 now2 k v)) =
     (if map_has (store (evictOldest (evictExpired now1 c))) k
      then map fst (store (evictOldest (evictExpired now1 c)))
      else map fst (store (evictOldest (evictExpired now1 c))) @ [k])"
    by (simp add: set_c_def Let_def keys_map_set)
next
  have "wf_store (store (evictExpired now1 c))"
    using assms by (rule wf_evictExpired)
  from map_has_evictOldest [OF this, of k] map_has_evictExpired [OF assms, of now1 k]
  show "map_has (store (evictOldest (evictExpired now1 c))) k \<longleftrightarrow>
        (\<exists>e. map_get (store c) k = Some e \<and> \<not> expiresAt e < now1) \<and>
        \<not> (maxSize (options c) \<le> int (length (store (evictExpired now1 c))) \<and>
           first_key (store (evictExpired now1 c)) = Some k)"
    by simp
qed

theorem set_existing_key_position_witness:
  "map fst (store (set_c \<lparr>options = \<lparr>ttl = 1000, maxSize = 3\<rparr>,
       store = [(''a'', \<lparr>val = (1::int), expiresAt = 1000\<rparr>),
                (''b'', \<lparr>val = 2, expiresAt = 1001\<rparr>)]\<rparr> 2 2 ''a'' 7))
   = [''a'', ''b'']"
proof -
  let ?c = "\<lparr>options = \<lparr>ttl = 1000, maxSize = 3\<rparr>,
       store = [(''a'', \<lparr>val = (1::int), expiresAt = 1000\<rparr>),
                (''b'', \<lparr>val = 2, expiresAt = 1001\<rparr>)]\<rparr>"
  have h: "wf_store (store ?c)"
    by (simp add: wf_store_def)
  have "map_has (store (evictOldest (evictExpired 2 ?c))) ''a''"
    using conjunct2 [OF set_existing_key_position [OF h, of 2 2 "''a''" 7]]
    by (simp add: evictExpired_def)
  with conjunct1 [OF set_existing_key_position [OF h, of 2 2 "''a''" 7]]
  show ?thesis
    by (simp add: evictExpired_def evictOldest_def)
qed

text \<open>
  C6, as the claim has it, fails: with \<open>maxSize = 3\<close> and nothing expiring, after
  \<open>set("a",1)\<close>, \<open>set("b",2)\<close> and \<open>set("a",7)\<close> the key \<open>a\<close> is still the oldest key of
  the store, and after \<open>set("c",3)\<close> and \<open>set("d",4)\<close> it is \<open>a\<close> that has been evicted,
  while \<open>b\<close> is still there.
\<close>

theorem reset_key_stays_oldest:
  "first_key (store (set_c (set_c (set_c (createCache \<lparr>ttl = 1000, maxSize = 3\<rparr>)
       0 0 ''a'' (1::int)) 1 1 ''b'' 2) 2 2 ''a'' 7)) = Some ''a''
   \<and> map fst (store (set_c (set_c (set_c (set_c (set_c
       (createCache \<lparr>ttl = 1000, maxSize = 3\<rparr>)
       0 0 ''a'' (1::int)) 1 1 ''b'' 2) 2 2 ''a'' 7) 3 3 ''c'' 3) 4 4 ''d'' 4))
     = [''b'', ''c'', ''d'']"
  by (simp add: createCache_def set_c_def evictExpired_def evictOldest_def)

text \<open>
  C7, as the code has it. For a cache created with \<open>maxSize \<le> 0\<close>, every \<open>set\<close> finds
  the store at capacity, evicts the oldest entry if there is one, and then inserts:
  after any sequence of calls that ends with \<open>set(key, value)\<close> the store holds exactly
  one entry, the one just set. The cache behaves as one of capacity one.
\<close>

theorem nonpositive_maxSize_keeps_last_set:
  assumes "maxSize opts \<le> 0"
    and "new_instance opts h = (this, h0)"
  shows "store (run this h0 (calls @ [Set key v now1 now2]) ! this)
       = [(key, \<lparr>val = v, expiresAt = now2 + ttl opts\<rparr>)]"
proof -
  let ?c = "foldl effect (createCache opts) calls"
  let ?c1 = "evictExpired now1 ?c"
  have run: "run this h0 (calls @ [Set key v now1 now2]) ! this = set_c ?c now1 now2 key v"
    using run_new_instance [OF assms(2), of "calls @ [Set key v now1 now2]"] by simp
  have inv: "cache_inv ?c"
    by (rule cache_inv_foldl_effect) (rule cache_inv_createCache)
  have opts: "options ?c = opts"
    by (simp add: createCache_def)
  have wf1: "wf_store (store ?c1)"
    using inv by (simp add: cache_inv_def wf_evictExpired)
  have "int (length (store ?c)) \<le> 1"
    using inv assms(1) opts by (simp add: cache_inv_def)
  then have len1: "length (store ?c1) \<le> 1"
    using length_evictExpired [of now1 ?c] by simp
  have "store (evictOldest ?c1) = tl (store ?c1)"
    using evictOldest_store [OF wf1] assms(1) opts by simp
  also have "\<dots> = []"
    using len1 by (cases "store ?c1") simp_all
  finally have "store (set_c ?c now1 now2 key v)
      = [(key, \<lparr>val = v, expiresAt = now2 + ttl opts\<rparr>)]"
    by (simp add: set_c_def Let_def createCache_def)
  then show ?thesis
    by (simp only: run)
qed

theorem nonpositive_maxSize_keeps_last_set_witness:
  "store (run 0 [createCache \<lparr>ttl = 10, maxSize = 0\<rparr>]
      ([Set ''a'' (1::int) 0 0] @ [Set ''b'' 2 1 1]) ! 0)
   = [(''b'', \<lparr>val = 2, expiresAt = 11\<rparr>)]"
proof -
  have h1: "maxSize \<lparr>ttl = 10, maxSize = 0\<rparr> \<le> 0"
    by simp
  have h2: "new_instance \<lparr>ttl = 10, maxSize = 0\<rparr> ([] :: int heap)
            = (0, [createCache \<lparr>ttl = 10, maxSize = 0\<rparr>])"
    by (simp add: new_instance_def)
  show ?thesis
    using nonpositive_maxSize_keeps_last_set
      [OF h1 h2, of "[Set ''a'' 1 0 0]" "''b''" 2 1 1] by simp
qed

text \<open>
  C7, as the claim has it, fails: on a cache created with \<open>maxSize = 0\<close> and
  \<open>ttl = 1000\<close>, the entry of \<open>set("a", 1)\<close> at time 0 is in the store after the call and
  \<open>get("a")\<close> at time 1 returns 1.
\<close>

theorem nonpositive_maxSize_entry_survives:
  "maxSize \<lparr>ttl = 1000, maxSize = 0\<rparr> \<le> 0
   \<and> store (set_c (createCache \<lparr>ttl = 1000, maxSize = 0\<rparr>) 0 0 ''a'' (1::int))
       = [(''a'', \<lparr>val = 1, expiresAt = 1000\<rparr>)]
   \<and> fst (get (set_c (createCache \<lparr>ttl = 1000, maxSize = 0\<rparr>) 0 0 ''a'' (1::int))
           1 1 ''a'') = Some 1"
  by (simp add: createCache_def set_c_def get_def evictExpired_def evictOldest_def)

text \<open>
  C8. \<open>delete(key)\<close> returns true exactly when the store held an entry for \<open>key\<close>
  before the call, whatever its \<open>expiresAt\<close>; after the call \<open>get(key)\<close> is absent,
  whatever the clock.
\<close>

theorem delete_reports_presence:
  "fst (delete_c c key) = (\<exists>e. (key, e) \<in> set (store c)) \<and>
   fst (get (snd (delete_c c key)) now1 now2 key) = None"
proof
  have "map_has (store c) key = (key \<in> fst ` set (store c))"
    by (simp add: map_has_def map_get_None_iff)
  also have "\<dots> = (\<exists>e. (key, e) \<in> set (store c))"
    by force
  finally show "fst (delete_c c key) = (\<exists>e. (key, e) \<in> set (store c))"
    by (simp add: delete_c_def)
next
  have "map_get (map_delete key (store c)) key = None"
    by (simp add: map_get_map_delete)
  moreover have "map_get (store (evictExpired now1 (snd (delete_c c key)))) key = None
      \<or> map_get (store (evictExpired now1 (snd (delete_c c key)))) key
          = map_get (map_delete key (store c)) key"
    using map_get_evictExpired_loop [of now1 "map_delete key (store c)" "map_delete key (store c)" key]
    by (simp add: evictExpired_def delete_c_def)
  ultimately have "map_get (store (evictExpired now1 (snd (delete_c c key)))) key = None"
    by auto
  then show "fst (get (snd (delete_c c key)) now1 now2 key) = None"
    by (simp add: get_def Let_def)
qed

theorem delete_reports_presence_witness:
  "fst (delete_c \<lparr>options = \<lparr>ttl = 5, maxSize = 2\<rparr>,
                  store = [(''k'', \<lparr>val = (7::int), expiresAt = 0\<rparr>)]\<rparr> ''k'') \<and>
   \<not> fst (delete_c \<lparr>options = \<lparr>ttl = 5, maxSize = 2\<rparr>,
                  store = [(''k'', \<lparr>val = (7::int), expiresAt = 0\<rparr>)]\<rparr> ''j'')"
  using delete_reports_presence [of "\<lparr>options = \<lparr>ttl = 5, maxSize = 2\<rparr>,
                  store = [(''k'', \<lparr>val = (7::int), expiresAt = 0\<rparr>)]\<rparr>" "''k''" 0 0]
    delete_reports_presence [of "\<lparr>options = \<lparr>ttl = 5, maxSize = 2\<rparr>,
                  store = [(''k'', \<lparr>val = (7::int), expiresAt = 0\<rparr>)]\<rparr>" "''j''" 0 0]
  by simp

text \<open>
  C9. Let the store hold each key once, \<open>maxSize \<ge> 1\<close>, and let the store after the
  sweep of \<open>set(k, v)\<close> hold exactly \<open>maxSize\<close> entries, one of them for \<open>k\<close>. Then the
  call still evicts the oldest entry, which the sweep has just found not expired,
  before it writes \<open>k\<close>. When the oldest key is not \<open>k\<close>, that key is gone afterwards and
  the store holds \<open>maxSize - 1\<close> entries.
\<close>

theorem set_existing_at_capacity:
  assumes "wf_store (store c)"
    and "1 \<le> maxSize (options c)"
    and "int (length (store (evictExpired now1 c))) = maxSize (options c)"
    and "map_has (store (evictExpired now1 c)) k"
  shows "\<exists>k0 e0 rest.
           store (evictExpired now1 c) = (k0, e0) # rest
         \<and> \<not> expiresAt e0 < now1
         \<and> store (set_c c now1 now2 k v)
             = map_set k \<lparr>val = v, expiresAt = now2 + ttl (options c)\<rparr> rest
         \<and> (k0 \<noteq> k \<longrightarrow>
               \<not> map_has (store (set_c c now1 now2 k v)) k0
             \<and> int (length (store (set_c c now1 now2 k v))) = maxSize (options c) - 1)"
proof -
  let ?c1 = "evictExpired now1 c"
  let ?e = "\<lparr>val = v, expiresAt = now2 + ttl (options c)\<rparr>"
  from assms(2,3) obtain k0 e0 rest where c1: "store ?c1 = (k0, e0) # rest"
    by (cases "store ?c1") auto
  have wf1: "wf_store (store ?c1)"
    using assms(1) by (rule wf_evictExpired)
  have "store ?c1 = filter (\<lambda>p. \<not> expiresAt (snd p) < now1) (store c)"
    using assms(1) by (simp add: evictExpired_def evictExpired_loop_wf)
  moreover have "(k0, e0) \<in> set (store ?c1)"
    by (simp add: c1)
  ultimately have live: "\<not> expiresAt e0 < now1"
    by simp
  have "store (evictOldest ?c1) = rest"
    using evictOldest_store [OF wf1] assms(3) c1 by simp
  then have st: "store (set_c c now1 now2 k v) = map_set k ?e rest"
    by (simp add: set_c_def Let_def)
  have other: "\<not> map_has (map_set k ?e rest) k0 \<and>
               int (length (map_set k ?e rest)) = maxSize (options c) - 1" if "k0 \<noteq> k"
  proof -
    from wf1 c1 have "k0 \<notin> fst ` set rest"
      by (simp add: wf_store_def)
    then have "map_get rest k0 = None"
      by (simp add: map_get_None_iff)
    with that have absent: "\<not> map_has (map_set k ?e rest) k0"
      by (simp add: map_has_def map_get_map_set)
    from assms(4) c1 that have "map_has rest k"
      by (simp add: map_has_def)
    then have "length (map_set k ?e rest) = length rest"
      by (simp add: length_map_set)
    with assms(3) c1 absent show ?thesis
      by simp
  qed
  from c1 live st other show ?thesis
    by (intro exI [of _ k0] exI [of _ e0] exI [of _ rest]) simp
qed

theorem set_existing_at_capacity_witness:
  "store (set_c \<lparr>options = \<lparr>ttl = 1000, maxSize = 2\<rparr>,
       store = [(''a'', \<lparr>val = (1::int), expiresAt = 1000\<rparr>),
                (''b'', \<lparr>val = 2, expiresAt = 1001\<rparr>)]\<rparr> 2 2 ''b'' 7)
   = [(''b'', \<lparr>val = 7, expiresAt = 1002\<rparr>)]"
proof -
  let ?c = "\<lparr>options = \<lparr>ttl = 1000, maxSize = 2\<rparr>,
       store = [(''a'', \<lparr>val = (1::int), expiresAt = 1000\<rparr>),
                (''b'', \<lparr>val = 2, expiresAt = 1001\<rparr>)]\<rparr>"
  have h1: "wf_store (store ?c)"
    by (simp add: wf_store_def)
  have h2: "1 \<le> maxSize (options ?c)"
    by simp
  have h3: "int (length (store (evictExpired 2 ?c))) = maxSize (options ?c)"
    by (simp add: evictExpired_def)
  have h4: "map_has (store (evictExpired 2 ?c)) ''b''"
    by (simp add: evictExpired_def map_has_def)
  from set_existing_at_capacity [OF h1 h2 h3 h4, of 2 7]
  show ?thesis
    by (auto simp: evictExpired_def)
qed

text \<open>
  C10. \<open>has(key)\<close> leaves the instance it is called on as it was: no sweep and no
  deletion happens on the store of \<open>this\<close>, whose entries are the same before and
  after the call. (The \<open>get\<close> inside \<open>has\<close> runs on the instance that \<open>has\<close> creates.)
\<close>

theorem has_leaves_store:
  assumes "this < length h"
  shows "snd (has this now1 now2 key h) ! this = h ! this"
  using assms by (simp add: has_unfold nth_append)

theorem has_leaves_store_witness:
  "store (snd (has 0 50 50 ''k''
      [\<lparr>options = \<lparr>ttl = 5, maxSize = 2\<rparr>,
        store = [(''k'', \<lparr>val = (7::int), expiresAt = 9\<rparr>)]\<rparr>]) ! 0)
   = [(''k'', \<lparr>val = 7, expiresAt = 9\<rparr>)]"
proof -
  have h: "(0::nat) < length [\<lparr>options = \<lparr>ttl = 5, maxSize = 2\<rparr>,
        store = [(''k'', \<lparr>val = (7::int), expiresAt = 9\<rparr>)]\<rparr>]"
    by simp
  show ?thesis
    by (simp add: has_leaves_store [OF h])
qed

end
